theory Spec2Isabelle
  imports Main "HOL-Library.Word" "HOL-Library.AList" "HOL-Library.Sublist"
begin

section \<open>Strings\<close>

text \<open>
  A TypeScript string is a sequence of UTF-16 code units. The source reads strings in
  two ways, and the model keeps both:
  \<^item> \<open>for (const char of s)\<close> (in \<open>insert\<close> and \<open>traverse\<close>) walks the string by code
    points: a high surrogate followed by a low surrogate is one element of two code
    units, every other code unit is an element of its own (\<open>codePoints\<close>);
  \<^item> \<open>s[depth]\<close> and \<open>s.length\<close> (in \<open>delete\<close>) index single code units.
  A key of a node's \<open>children\<close> map is therefore itself a string of one or two code units.
  (The source also iterates a \<open>Map\<close> with \<open>for ... of\<close>, so it is compiled for iterators,
  and the iterator of a string yields code points.)
\<close>

type_synonym jsstring = "16 word list"

text \<open>An ASCII literal, written as its code units.\<close>

definition js :: "string \<Rightarrow> jsstring" where
  "js s = map of_char s"

definition isHigh :: "16 word \<Rightarrow> bool" where
  "isHigh c = (0xD800 \<le> c \<and> c \<le> 0xDBFF)"

definition isLow :: "16 word \<Rightarrow> bool" where
  "isLow c = (0xDC00 \<le> c \<and> c \<le> 0xDFFF)"

fun codePoints :: "jsstring \<Rightarrow> jsstring list" where
  "codePoints [] = []"
| "codePoints [c] = [[c]]"
| "codePoints (c # d # cs) =
     (if isHigh c \<and> isLow d then [c, d] # codePoints cs else [c] # codePoints (d # cs))"

text \<open>
  Modelled from the spec: \<open>toLowerCase\<close> is a method of the platform's string type and
  not code of this repository. The spec describes the normalization as a simple lowercase
  mapping, with no Unicode-aware case folding. It is modelled as the mapping that sends
  the code units of \<open>A\<close> to \<open>Z\<close> to those of \<open>a\<close> to \<open>z\<close> and keeps every other code unit.
  The platform's mapping also changes letters outside ASCII; the model does not cover
  them. The proofs use that the mapping is idempotent, and its values on the ASCII words
  of the examples.
\<close>

definition lowerUnit :: "16 word \<Rightarrow> 16 word" where
  "lowerUnit c = (if 0x41 \<le> c \<and> c \<le> 0x5A then c + 0x20 else c)"

definition toLowerCase :: "jsstring \<Rightarrow> jsstring" where
  "toLowerCase s = map lowerUnit s"

section \<open>The data model\<close>

text \<open>
  \<open>interface TrieNode { children: Map<string, TrieNode>; isEndOfWord: boolean }\<close>.
  A \<open>Map\<close> iterates in insertion order, and \<open>autocomplete\<close> and \<open>countWords\<close> iterate over it,
  so \<open>children\<close> is an association list in insertion order: \<open>get\<close> is \<open>map_of\<close>, \<open>set\<close> is
  \<open>AList.update\<close> (a present key keeps its place, a new key goes last), \<open>delete\<close> is
  \<open>AList.delete\<close>, \<open>size\<close> is \<open>length\<close>.
\<close>

datatype TrieNode = TrieNode (children: "(jsstring \<times> TrieNode) list") (isEndOfWord: bool)

record Trie =
  root :: TrieNode

definition createNode :: TrieNode where
  "createNode = TrieNode [] False"

text \<open>The constructor: \<open>this.root = this.createNode()\<close>.\<close>

definition newTrie :: Trie where
  "newTrie = \<lparr>root = createNode\<rparr>"

section \<open>The operations\<close>

text \<open>
  \<open>insert\<close> walks down from the root and mutates the nodes in place. In the model the loop
  is a recursion over the remaining characters that rebuilds the path it walks:
  \<open>nextNode\<close> is the child found, or a fresh node, and the parent's map holds the child as
  it is after the rest of the loop has run.
\<close>

fun insertFrom :: "TrieNode \<Rightarrow> jsstring list \<Rightarrow> TrieNode" where
  "insertFrom currentNode [] = TrieNode (children currentNode) True"
| "insertFrom currentNode (char # rest) =
     (let nextNode = (case map_of (children currentNode) char of
                        None \<Rightarrow> createNode
                      | Some n \<Rightarrow> n)
      in TrieNode (AList.update char (insertFrom nextNode rest) (children currentNode))
           (isEndOfWord currentNode))"

definition insertWord :: "Trie \<Rightarrow> jsstring \<Rightarrow> Trie" where
  "insertWord t word = \<lparr>root = insertFrom (root t) (codePoints (toLowerCase word))\<rparr>"

text \<open>\<open>traverse\<close>: \<open>None\<close> is the source's \<open>null\<close>.\<close>

fun walk :: "TrieNode \<Rightarrow> jsstring list \<Rightarrow> TrieNode option" where
  "walk currentNode [] = Some currentNode"
| "walk currentNode (char # rest) =
     (case map_of (children currentNode) char of
        None \<Rightarrow> None
      | Some nextNode \<Rightarrow> walk nextNode rest)"

definition traverse :: "Trie \<Rightarrow> jsstring \<Rightarrow> TrieNode option" where
  "traverse t str = walk (root t) (codePoints (toLowerCase str))"

definition search :: "Trie \<Rightarrow> jsstring \<Rightarrow> bool" where
  "search t word = (case traverse t word of None \<Rightarrow> False | Some node \<Rightarrow> isEndOfWord node)"

definition startsWith :: "Trie \<Rightarrow> jsstring \<Rightarrow> bool" where
  "startsWith t pre = (traverse t pre \<noteq> None)"

text \<open>
  \<open>canDelete(node, depth)\<close> returns a flag and mutates the subtree of \<open>node\<close>; the model
  returns the flag together with the node as it is afterwards. The character at \<open>depth\<close>
  is the single code unit \<open>normalizedWord[depth]\<close>. The recursion starts at depth 0 and
  stops at \<open>depth = length\<close>, so the branch for a depth beyond the length is never taken from
  \<open>delete\<close>; there \<open>normalizedWord[depth]\<close> is \<open>undefined\<close>, which is no key of the map.
\<close>

function canDelete :: "jsstring \<Rightarrow> TrieNode \<Rightarrow> nat \<Rightarrow> bool \<times> TrieNode" where
  "canDelete normalizedWord node depth =
     (if depth = length normalizedWord then
        (if \<not> isEndOfWord node then (False, node)
         else (length (children node) = 0, TrieNode (children node) False))
      else if length normalizedWord < depth then (False, node)
      else
        (let char = [normalizedWord ! depth] in
         case map_of (children node) char of
           None \<Rightarrow> (False, node)
         | Some nextNode \<Rightarrow>
             (let (shouldDeleteChild, nextNode') = canDelete normalizedWord nextNode (depth + 1) in
              if shouldDeleteChild then
                (let remaining = AList.delete char (children node) in
                 (length remaining = 0 \<and> \<not> isEndOfWord node,
                  TrieNode remaining (isEndOfWord node)))
              else
                (False,
                 TrieNode (AList.update char nextNode' (children node)) (isEndOfWord node)))))"
  by pat_completeness auto
termination
  by (relation "measure (\<lambda>(w, n, d). length w - d)") auto

declare canDelete.simps [simp del]

text \<open>
  \<open>delete\<close> returns what the top-level call of \<open>canDelete\<close> returns; the root stays the
  trie's root whatever the flag says.
\<close>

definition deleteWord :: "Trie \<Rightarrow> jsstring \<Rightarrow> bool \<times> Trie" where
  "deleteWord t word =
     (let (result, root') = canDelete (toLowerCase word) (root t) 0
      in (result, \<lparr>root = root'\<rparr>))"

lemma size_child [termination_simp]:
  "(char, childNode) \<in> set (children node) \<Longrightarrow> size childNode < size node"
proof (cases node)
  case (TrieNode cs e)
  assume "(char, childNode) \<in> set (children node)"
  with TrieNode have "(char, childNode) \<in> set cs" by simp
  then have "size_prod (\<lambda>_. 0) size (char, childNode) \<le> size_list (size_prod (\<lambda>_. 0) size) cs"
    by (simp add: size_list_estimation')
  with TrieNode show ?thesis by simp
qed

text \<open>
  \<open>dfs\<close> pushes the current word when the node ends a word, then visits the children in
  the map's order; the model returns what the call appends to \<open>results\<close>.
\<close>

fun dfs :: "TrieNode \<Rightarrow> jsstring \<Rightarrow> jsstring list" where
  "dfs node currentWord =
     (if isEndOfWord node then [currentWord] else []) @
     concat (map (\<lambda>(char, childNode). dfs childNode (currentWord @ char)) (children node))"

declare dfs.simps [simp del]

definition autocomplete :: "Trie \<Rightarrow> jsstring \<Rightarrow> jsstring list" where
  "autocomplete t pre =
     (case traverse t pre of
        None \<Rightarrow> []
      | Some startNode \<Rightarrow> dfs startNode (toLowerCase pre))"

text \<open>\<open>countWords\<close>: the loop over the queue, with \<open>shift\<close> taking the head.\<close>

function bfs :: "TrieNode list \<Rightarrow> nat \<Rightarrow> nat" where
  "bfs [] count = count"
| "bfs (currentNode # queue) count =
     bfs (queue @ map snd (children currentNode))
         (if isEndOfWord currentNode then count + 1 else count)"
  by pat_completeness auto
termination
proof (relation "measure (\<lambda>(queue, count). sum_list (map size queue))")
  show "wf (measure (\<lambda>(queue, count). sum_list (map size queue)))" by simp
next
  fix currentNode :: TrieNode and queue :: "TrieNode list" and count :: nat
  have "sum_list (map size (map snd (children currentNode))) < size currentNode"
  proof (cases currentNode)
    case (TrieNode cs e)
    have "sum_list (map (size \<circ> snd) cs) \<le> size_list (size_prod (\<lambda>_. 0) size) cs"
      by (induction cs) auto
    with TrieNode show ?thesis by (simp add: comp_def)
  qed
  then show "((queue @ map snd (children currentNode),
               if isEndOfWord currentNode then count + 1 else count),
              currentNode # queue, count)
             \<in> measure (\<lambda>(queue, count). sum_list (map size queue))"
    by simp
qed

definition countWords :: "Trie \<Rightarrow> nat" where
  "countWords t = bfs [root t] 0"

section \<open>Sequences of calls and what they store\<close>

text \<open>
  The fields of the class are private, so a trie state is what a sequence of \<open>insert\<close> and
  \<open>delete\<close> calls makes of \<open>new Trie()\<close>.
\<close>

datatype Op = Insert jsstring | Delete jsstring

fun applyOp :: "Trie \<Rightarrow> Op \<Rightarrow> Trie" where
  "applyOp t (Insert word) = insertWord t word"
| "applyOp t (Delete word) = snd (deleteWord t word)"

definition execute :: "Op list \<Rightarrow> Trie" where
  "execute ops = foldl applyOp newTrie ops"

text \<open>The normalized words a trie holds: the lowercase forms of the words \<open>search\<close> finds.\<close>

definition storedWords :: "Trie \<Rightarrow> jsstring set" where
  "storedWords t = {toLowerCase w |w. search t w}"

text \<open>
  A ledger kept beside the trie: an insert enters the normalized word, and a delete after
  which the word is no longer found strikes it out.
\<close>

fun ledgerStep :: "Trie \<times> jsstring set \<Rightarrow> Op \<Rightarrow> Trie \<times> jsstring set" where
  "ledgerStep (t, S) (Insert word) = (insertWord t word, Set.insert (toLowerCase word) S)"
| "ledgerStep (t, S) (Delete word) =
     (let t' = snd (deleteWord t word)
      in (t', if search t' word then S else S - {toLowerCase word}))"

definition ledger :: "Op list \<Rightarrow> jsstring set" where
  "ledger ops = snd (foldl ledgerStep (newTrie, {}) ops)"

text \<open>
  Garbage: a node with no children that ends no word. A trie is garbage-free when no node
  below its root is garbage.
\<close>

definition live :: "TrieNode \<Rightarrow> bool" where
  "live node = (children node \<noteq> [] \<or> isEndOfWord node)"

fun noGarbage :: "TrieNode \<Rightarrow> bool" where
  "noGarbage node =
     list_all (\<lambda>(char, childNode). live childNode \<and> noGarbage childNode) (children node)"

declare noGarbage.simps [simp del]

definition garbageFree :: "Trie \<Rightarrow> bool" where
  "garbageFree t = noGarbage (root t)"

section \<open>The demonstration of the source file\<close>

definition wordsToInsert :: "jsstring list" where
  "wordsToInsert = map js [''apple'', ''application'', ''banana'', ''band'', ''bandwidth'',
     ''java'', ''javascript'', ''type'', ''typescript'', ''react'']"

definition dictionary :: Trie where
  "dictionary = foldl insertWord newTrie wordsToInsert"

section \<open>Notions used in the proofs\<close>

text \<open>The keys \<open>delete\<close> looks up for a word: one key per code unit.\<close>

definition units :: "jsstring \<Rightarrow> jsstring list" where
  "units s = map (\<lambda>c. [c]) s"

text \<open>
  \<open>canDelete\<close> as a recursion over the keys still to look up; \<open>canDelete_keys\<close> below shows
  that it is \<open>canDelete\<close>.
\<close>

fun canDeleteKeys :: "TrieNode \<Rightarrow> jsstring list \<Rightarrow> bool \<times> TrieNode" where
  "canDeleteKeys node [] =
     (if \<not> isEndOfWord node then (False, node)
      else (children node = [], TrieNode (children node) False))"
| "canDeleteKeys node (char # rest) =
     (case map_of (children node) char of
        None \<Rightarrow> (False, node)
      | Some nextNode \<Rightarrow>
          (if fst (canDeleteKeys nextNode rest) then
             (AList.delete char (children node) = [] \<and> \<not> isEndOfWord node,
              TrieNode (AList.delete char (children node)) (isEndOfWord node))
           else
             (False,
              TrieNode (AList.update char (snd (canDeleteKeys nextNode rest)) (children node))
                (isEndOfWord node))))"

text \<open>The path of keys \<open>ks\<close> from \<open>node\<close> exists and ends a word.\<close>

definition isWordAt :: "TrieNode \<Rightarrow> jsstring list \<Rightarrow> bool" where
  "isWordAt node ks = (case walk node ks of None \<Rightarrow> False | Some n \<Rightarrow> isEndOfWord n)"

text \<open>The key paths of the words below a node, in the order \<open>dfs\<close> meets them.\<close>

fun wordKeys :: "TrieNode \<Rightarrow> jsstring list list" where
  "wordKeys node =
     (if isEndOfWord node then [[]] else []) @
     concat (map (\<lambda>(char, childNode). map ((#) char) (wordKeys childNode)) (children node))"

declare wordKeys.simps [simp del]

text \<open>A \<open>Map\<close> has each key once.\<close>

fun distinctKeys :: "TrieNode \<Rightarrow> bool" where
  "distinctKeys node =
     (distinct (map fst (children node)) \<and>
      list_all (\<lambda>(char, childNode). distinctKeys childNode) (children node))"

declare distinctKeys.simps [simp del]

text \<open>
  Every word path is the code-point sequence of the lowercase string it spells, as the
  paths \<open>insert\<close> builds are.
\<close>

definition canonical :: "TrieNode \<Rightarrow> bool" where
  "canonical node = list_all (\<lambda>ks. codePoints (toLowerCase (concat ks)) = ks) (wordKeys node)"

definition invariant :: "TrieNode \<Rightarrow> bool" where
  "invariant node = (distinctKeys node \<and> noGarbage node \<and> canonical node)"

section \<open>Lowercase and code points\<close>

lemma lowerUnit_idem: "lowerUnit (lowerUnit c) = lowerUnit c"
  unfolding lowerUnit_def by (auto simp: word_le_nat_alt unat_word_ariths)

lemma isHigh_lowerUnit: "isHigh (lowerUnit c) = isHigh c"
  unfolding lowerUnit_def isHigh_def by (auto simp: word_le_nat_alt unat_word_ariths)

lemma isLow_lowerUnit: "isLow (lowerUnit c) = isLow c"
  unfolding lowerUnit_def isLow_def by (auto simp: word_le_nat_alt unat_word_ariths)

lemma concat_codePoints: "concat (codePoints s) = s"
  by (induction s rule: codePoints.induct) auto

lemma codePoints_toLowerCase: "codePoints (toLowerCase s) = map toLowerCase (codePoints s)"
  by (induction s rule: codePoints.induct) (auto simp: toLowerCase_def isHigh_lowerUnit isLow_lowerUnit)

section \<open>Insertion and deletion on key paths\<close>

lemma canDelete_keys:
  "depth \<le> length w \<Longrightarrow> canDelete w node depth = canDeleteKeys node (units (drop depth w))"
proof (induction w node depth rule: canDelete.induct)
  case (1 w node depth)
  show ?case
  proof (cases "depth = length w")
    case True
    then show ?thesis by (simp add: canDelete.simps units_def)
  next
    case False
    with "1.prems" have lt: "depth < length w" by simp
    then have dr: "units (drop depth w) = [w ! depth] # units (drop (Suc depth) w)"
      by (simp add: units_def flip: Cons_nth_drop_Suc)
    show ?thesis
    proof (cases "map_of (children node) [w ! depth]")
      case None
      with lt dr show ?thesis by (simp add: canDelete.simps)
    next
      case (Some nextNode)
      from lt have "canDelete w nextNode (depth + 1) = canDeleteKeys nextNode (units (drop (depth + 1) w))"
        using "1.IH"[OF False _ refl Some] by simp
      with lt dr Some show ?thesis
        by (subst canDelete.simps) (simp add: Let_def split: prod.splits)
    qed
  qed
qed

lemma isWordAt_Nil [simp]: "isWordAt node [] = isEndOfWord node"
  by (simp add: isWordAt_def)

lemma isWordAt_Cons [simp]:
  "isWordAt node (k # ks) =
     (case map_of (children node) k of None \<Rightarrow> False | Some c \<Rightarrow> isWordAt c ks)"
  by (simp add: isWordAt_def split: option.splits)

lemma isWordAt_createNode [simp]: "\<not> isWordAt createNode ks"
  by (cases ks) (simp_all add: createNode_def)

lemma isWordAt_insertFrom:
  "isWordAt (insertFrom node ks) ks' = (ks' = ks \<or> isWordAt node ks')"
proof (induction ks arbitrary: node ks')
  case Nil
  then show ?case by (cases ks') simp_all
next
  case (Cons k ks)
  show ?case
  proof (cases ks')
    case Nil
    then show ?thesis by (simp add: Let_def)
  next
    case (Cons k' ks'')
    then show ?thesis
      using Cons.IH by (auto simp: Let_def update_conv' split: option.splits)
  qed
qed

lemma canDeleteKeys_flag:
  "fst (canDeleteKeys node ks) \<Longrightarrow> snd (canDeleteKeys node ks) = createNode"
  by (cases ks) (auto simp: createNode_def split: option.splits if_splits)

lemma isWordAt_empty_node: "children node = [] \<Longrightarrow> \<not> isEndOfWord node \<Longrightarrow> \<not> isWordAt node ks"
  by (cases ks) simp_all

lemma isWordAt_canDeleteKeys:
  "isWordAt (snd (canDeleteKeys node ks)) ks' = (isWordAt node ks' \<and> ks' \<noteq> ks)"
proof (induction ks arbitrary: node ks')
  case Nil
  then show ?case by (cases ks') auto
next
  case (Cons k ks)
  show ?case
  proof (cases "map_of (children node) k")
    case None
    then show ?thesis by (cases ks') auto
  next
    case (Some nextNode)
    note IH = Cons.IH[of nextNode]
    show ?thesis
    proof (cases "fst (canDeleteKeys nextNode ks)")
      case True
      then have "snd (canDeleteKeys nextNode ks) = createNode" by (rule canDeleteKeys_flag)
      with IH have gone: "\<And>r. isWordAt nextNode r \<Longrightarrow> r = ks" by simp
      show ?thesis
      proof (cases ks')
        case Nil
        with Some True show ?thesis by simp
      next
        case (Cons k' r)
        with Some True gone show ?thesis
          by (auto simp: delete_conv' split: option.splits)
      qed
    next
      case False
      show ?thesis
      proof (cases ks')
        case Nil
        with Some False show ?thesis by simp
      next
        case (Cons k' r)
        with Some False IH show ?thesis
          by (auto simp: update_conv' split: option.splits)
      qed
    qed
  qed
qed

lemma TrieNode_collapse' [simp]: "TrieNode (children node) (isEndOfWord node) = node"
  by (cases node) simp

lemma canDeleteKeys_absent:
  "\<not> isWordAt node ks \<Longrightarrow> canDeleteKeys node ks = (False, node)"
proof (induction ks arbitrary: node)
  case Nil
  then show ?case by simp
next
  case (Cons k ks)
  then show ?case
    by (auto simp: update_triv split: option.splits)
qed

section \<open>What the two traversals compute\<close>

lemma dfs_wordKeys: "dfs node cur = map (\<lambda>ks. cur @ concat ks) (wordKeys node)"
proof (induction node cur rule: dfs.induct)
  case (1 node cur)
  have "concat (map (\<lambda>(char, childNode). dfs childNode (cur @ char)) (children node)) =
        concat (map (\<lambda>(char, childNode). map (\<lambda>ks. cur @ concat ks) (map ((#) char) (wordKeys childNode))) (children node))"
    by (rule arg_cong[where f = concat], rule map_cong[OF refl]) (auto simp: "1.IH")
  then show ?case
    by (subst dfs.simps, subst wordKeys.simps) (simp add: map_concat comp_def case_prod_unfold)
qed

lemma length_wordKeys:
  "length (wordKeys node) =
     (if isEndOfWord node then 1 else 0) + sum_list (map (\<lambda>c. length (wordKeys c)) (map snd (children node)))"
  by (subst wordKeys.simps) (simp add: length_concat comp_def case_prod_unfold)

lemma bfs_count: "bfs queue count = count + sum_list (map (\<lambda>c. length (wordKeys c)) queue)"
proof (induction queue count rule: bfs.induct)
  case (1 count)
  then show ?case by simp
next
  case (2 currentNode queue count)
  show ?case
    by (simp add: "2.IH" length_wordKeys[of currentNode])
qed

lemma countWords_wordKeys: "countWords t = length (wordKeys (root t))"
  by (simp add: countWords_def bfs_count)

lemma isWordAt_subset_wordKeys: "isWordAt node ks \<Longrightarrow> ks \<in> set (wordKeys node)"
proof (induction ks arbitrary: node)
  case Nil
  then show ?case by (subst wordKeys.simps) simp
next
  case (Cons k ks)
  then obtain c where c: "map_of (children node) k = Some c" "isWordAt c ks"
    by (auto split: option.splits)
  then have "(k, c) \<in> set (children node)" by (simp add: map_of_SomeD)
  moreover have "ks \<in> set (wordKeys c)" using Cons.IH c by simp
  ultimately show ?case
    by (subst wordKeys.simps) force
qed

lemma wordKeys_subset_isWordAt:
  "distinctKeys node \<Longrightarrow> ks \<in> set (wordKeys node) \<Longrightarrow> isWordAt node ks"
proof (induction ks arbitrary: node)
  case Nil
  then show ?case by (subst (asm) wordKeys.simps) (auto split: if_splits)
next
  case (Cons k ks)
  from Cons.prems(2) obtain c where c: "(k, c) \<in> set (children node)" "ks \<in> set (wordKeys c)"
    by (subst (asm) wordKeys.simps) (auto split: if_splits)
  from Cons.prems(1) have d: "distinct (map fst (children node))"
    and dc: "distinctKeys c"
    using c(1) by (subst (asm) distinctKeys.simps, auto simp: list_all_iff)+
  from d c(1) have "map_of (children node) k = Some c" by simp
  with Cons.IH[OF dc c(2)] show ?case by simp
qed

lemma set_wordKeys: "distinctKeys node \<Longrightarrow> set (wordKeys node) = {ks. isWordAt node ks}"
  using isWordAt_subset_wordKeys wordKeys_subset_isWordAt by blast

lemma distinct_concat_keys:
  "distinct (map fst cs) \<Longrightarrow> (\<And>k c. (k, c) \<in> set cs \<Longrightarrow> distinct (g c)) \<Longrightarrow>
   distinct (concat (map (\<lambda>(k, c). map ((#) k) (g c)) cs))"
proof (induction cs)
  case Nil
  then show ?case by simp
next
  case (Cons p cs)
  obtain k c where p: "p = (k, c)" by (cases p)
  from Cons.prems have "distinct (concat (map (\<lambda>(k, c). map ((#) k) (g c)) cs))"
    by (intro Cons.IH) auto
  moreover have "distinct (map ((#) k) (g c))"
    using Cons.prems(2)[of k c] p by (simp add: distinct_map)
  moreover have "set (map ((#) k) (g c)) \<inter> set (concat (map (\<lambda>(k, c). map ((#) k) (g c)) cs)) = {}"
    using Cons.prems(1) p by (auto simp: rev_image_eqI)
  ultimately show ?case using p by simp
qed

lemma distinct_wordKeys: "distinctKeys node \<Longrightarrow> distinct (wordKeys node)"
proof (induction node rule: wordKeys.induct)
  case (1 node)
  from "1.prems" have d: "distinct (map fst (children node))"
    and dc: "\<And>k c. (k, c) \<in> set (children node) \<Longrightarrow> distinctKeys c"
    by (subst (asm) distinctKeys.simps, auto simp: list_all_iff)+
  have "distinct (concat (map (\<lambda>(k, c). map ((#) k) (wordKeys c)) (children node)))"
    using d "1.IH" dc by (intro distinct_concat_keys) auto
  then show ?case
    by (subst wordKeys.simps) auto
qed

lemma countWords_card:
  "distinctKeys (root t) \<Longrightarrow> countWords t = card {ks. isWordAt (root t) ks}"
  by (metis countWords_wordKeys distinct_card distinct_wordKeys set_wordKeys)

section \<open>The invariants of a trie state\<close>

lemma in_set_update:
  "(k', c) \<in> set (AList.update k v al) \<Longrightarrow> (k', c) = (k, v) \<or> (k', c) \<in> set al"
  by (induction al) (auto split: if_splits)

lemma in_set_delete: "(k', c) \<in> set (AList.delete k al) \<Longrightarrow> (k', c) \<in> set al"
  by (induction al) (auto split: if_splits)

lemma distinctKeys_child:
  "distinctKeys node \<Longrightarrow> map_of (children node) k = Some c \<Longrightarrow> distinctKeys c"
  by (subst (asm) distinctKeys.simps) (auto simp: list_all_iff dest: map_of_SomeD)

lemma distinctKeys_createNode [simp]: "distinctKeys createNode"
  by (subst distinctKeys.simps) (simp add: createNode_def)

lemma distinctKeys_insertFrom: "distinctKeys node \<Longrightarrow> distinctKeys (insertFrom node ks)"
proof (induction ks arbitrary: node)
  case Nil
  then show ?case
    by (subst distinctKeys.simps, subst (asm) distinctKeys.simps) simp
next
  case (Cons k ks)
  define nextNode where
    "nextNode = (case map_of (children node) k of None \<Rightarrow> createNode | Some n \<Rightarrow> n)"
  have "distinctKeys nextNode"
    using Cons.prems by (auto simp: nextNode_def dest: distinctKeys_child split: option.splits)
  then have new: "distinctKeys (insertFrom nextNode ks)" by (rule Cons.IH)
  from Cons.prems have d: "distinct (map fst (children node))"
    and dc: "\<And>k c. (k, c) \<in> set (children node) \<Longrightarrow> distinctKeys c"
    by (subst (asm) distinctKeys.simps, auto simp: list_all_iff)+
  show ?case
    using d dc new
    by (subst distinctKeys.simps)
       (auto simp: Let_def list_all_iff distinct_update nextNode_def dest!: in_set_update)
qed

lemma distinctKeys_canDeleteKeys:
  "distinctKeys node \<Longrightarrow> distinctKeys (snd (canDeleteKeys node ks))"
proof (induction ks arbitrary: node)
  case Nil
  then show ?case
    by (subst distinctKeys.simps, subst (asm) distinctKeys.simps) simp
next
  case (Cons k ks)
  from Cons.prems have d: "distinct (map fst (children node))"
    and dc: "\<And>k c. (k, c) \<in> set (children node) \<Longrightarrow> distinctKeys c"
    by (subst (asm) distinctKeys.simps, auto simp: list_all_iff)+
  show ?case
  proof (cases "map_of (children node) k")
    case None
    with Cons.prems show ?thesis by simp
  next
    case (Some nextNode)
    then have "distinctKeys nextNode" using Cons.prems by (auto dest: distinctKeys_child)
    then have new: "distinctKeys (snd (canDeleteKeys nextNode ks))" by (rule Cons.IH)
    show ?thesis
      using d dc new Some
      by (subst distinctKeys.simps)
         (auto simp: list_all_iff distinct_update distinct_delete
               dest!: in_set_update in_set_delete)
  qed
qed

lemma noGarbageI:
  "(\<And>k c. (k, c) \<in> set (children node) \<Longrightarrow> live c \<and> noGarbage c) \<Longrightarrow> noGarbage node"
  by (subst noGarbage.simps) (auto simp: list_all_iff)

lemma noGarbageD:
  "noGarbage node \<Longrightarrow> (k, c) \<in> set (children node) \<Longrightarrow> live c \<and> noGarbage c"
  by (subst (asm) noGarbage.simps) (auto simp: list_all_iff)

lemma noGarbage_createNode [simp]: "noGarbage createNode"
  by (rule noGarbageI) (simp add: createNode_def)

lemma insertFrom_live: "live (insertFrom node ks)"
  by (cases ks) (simp_all add: Let_def live_def)

lemma noGarbage_insertFrom: "noGarbage node \<Longrightarrow> noGarbage (insertFrom node ks)"
proof (induction ks arbitrary: node)
  case Nil
  show ?case
  proof (rule noGarbageI)
    fix k c assume "(k, c) \<in> set (children (insertFrom node []))"
    then have "(k, c) \<in> set (children node)" by simp
    with Nil show "live c \<and> noGarbage c" by (rule noGarbageD)
  qed
next
  case (Cons k ks)
  define nextNode where
    "nextNode = (case map_of (children node) k of None \<Rightarrow> createNode | Some n \<Rightarrow> n)"
  have "noGarbage nextNode"
  proof (cases "map_of (children node) k")
    case None
    then show ?thesis by (simp add: nextNode_def)
  next
    case (Some n)
    then have "(k, n) \<in> set (children node)" by (rule map_of_SomeD)
    with Cons.prems Some show ?thesis by (auto simp: nextNode_def dest: noGarbageD)
  qed
  then have new: "noGarbage (insertFrom nextNode ks)" by (rule Cons.IH)
  have ch: "children (insertFrom node (k # ks)) =
            AList.update k (insertFrom nextNode ks) (children node)"
    by (simp add: Let_def nextNode_def)
  show ?case
  proof (rule noGarbageI)
    fix k' c assume "(k', c) \<in> set (children (insertFrom node (k # ks)))"
    then have "(k', c) = (k, insertFrom nextNode ks) \<or> (k', c) \<in> set (children node)"
      unfolding ch by (rule in_set_update)
    then show "live c \<and> noGarbage c"
    proof
      assume "(k', c) = (k, insertFrom nextNode ks)"
      with new insertFrom_live show ?thesis by simp
    next
      assume "(k', c) \<in> set (children node)"
      with Cons.prems show ?thesis by (rule noGarbageD)
    qed
  qed
qed

lemma canDeleteKeys_Cons_children:
  "map_of (children node) k = Some nextNode \<Longrightarrow>
   children (snd (canDeleteKeys node (k # ks))) =
     (if fst (canDeleteKeys nextNode ks) then AList.delete k (children node)
      else AList.update k (snd (canDeleteKeys nextNode ks)) (children node))"
  by simp

lemma noGarbage_canDeleteKeys:
  "noGarbage node \<Longrightarrow>
   noGarbage (snd (canDeleteKeys node ks)) \<and>
   (live node \<longrightarrow> \<not> fst (canDeleteKeys node ks) \<longrightarrow> live (snd (canDeleteKeys node ks)))"
proof (induction ks arbitrary: node)
  case Nil
  have "noGarbage (snd (canDeleteKeys node []))"
  proof (rule noGarbageI)
    fix k c assume "(k, c) \<in> set (children (snd (canDeleteKeys node [])))"
    then have "(k, c) \<in> set (children node)" by (simp split: if_splits)
    with Nil show "live c \<and> noGarbage c" by (rule noGarbageD)
  qed
  moreover have "live node \<longrightarrow> \<not> fst (canDeleteKeys node []) \<longrightarrow> live (snd (canDeleteKeys node []))"
    by (simp add: live_def)
  ultimately show ?case by simp
next
  case (Cons k ks)
  show ?case
  proof (cases "map_of (children node) k")
    case None
    with Cons.prems show ?thesis by simp
  next
    case (Some nextNode)
    then have mem: "(k, nextNode) \<in> set (children node)" by (rule map_of_SomeD)
    with Cons.prems have "live nextNode \<and> noGarbage nextNode" by (rule noGarbageD)
    then have lv: "live nextNode" and ng: "noGarbage nextNode" by simp_all
    note IH = Cons.IH[OF ng]
    note ch = canDeleteKeys_Cons_children[OF Some, of ks]
    have "noGarbage (snd (canDeleteKeys node (k # ks)))"
    proof (rule noGarbageI)
      fix k' c assume a: "(k', c) \<in> set (children (snd (canDeleteKeys node (k # ks))))"
      show "live c \<and> noGarbage c"
      proof (cases "fst (canDeleteKeys nextNode ks)")
        case True
        with a ch have "(k', c) \<in> set (AList.delete k (children node))" by simp
        then have "(k', c) \<in> set (children node)" by (rule in_set_delete)
        with Cons.prems show ?thesis by (rule noGarbageD)
      next
        case False
        with a ch have "(k', c) \<in> set (AList.update k (snd (canDeleteKeys nextNode ks)) (children node))"
          by simp
        then have "(k', c) = (k, snd (canDeleteKeys nextNode ks)) \<or> (k', c) \<in> set (children node)"
          by (rule in_set_update)
        then show ?thesis
        proof
          assume "(k', c) = (k, snd (canDeleteKeys nextNode ks))"
          with IH lv False show ?thesis by simp
        next
          assume "(k', c) \<in> set (children node)"
          with Cons.prems show ?thesis by (rule noGarbageD)
        qed
      qed
    qed
    moreover have "\<not> fst (canDeleteKeys node (k # ks)) \<longrightarrow> live (snd (canDeleteKeys node (k # ks)))"
      using Some by (simp add: live_def)
    ultimately show ?thesis by simp
  qed
qed

section \<open>The operations on stored words\<close>

lemma toLowerCase_idem [simp]: "toLowerCase (toLowerCase s) = toLowerCase s"
  by (simp add: toLowerCase_def lowerUnit_idem)

lemma concat_units [simp]: "concat (units s) = s"
  by (induction s) (simp_all add: units_def)

lemma codePoints_eq_iff: "codePoints a = codePoints b \<longleftrightarrow> a = b"
  by (metis concat_codePoints)

lemma search_keys: "search t w = isWordAt (root t) (codePoints (toLowerCase w))"
  by (simp add: search_def traverse_def isWordAt_def)

lemma root_insertWord [simp]:
  "root (insertWord t w) = insertFrom (root t) (codePoints (toLowerCase w))"
  by (simp add: insertWord_def)

lemma deleteWord_keys:
  "deleteWord t w =
     (fst (canDeleteKeys (root t) (units (toLowerCase w))),
      \<lparr>root = snd (canDeleteKeys (root t) (units (toLowerCase w)))\<rparr>)"
  by (simp add: deleteWord_def canDelete_keys split: prod.splits)

lemma root_deleteWord [simp]:
  "root (snd (deleteWord t w)) = snd (canDeleteKeys (root t) (units (toLowerCase w)))"
  by (simp add: deleteWord_keys)

lemma search_insertWord:
  "search (insertWord t w) v = (toLowerCase v = toLowerCase w \<or> search t v)"
  by (simp add: search_keys isWordAt_insertFrom codePoints_eq_iff)

lemma units_eq_codePoints:
  "codePoints (toLowerCase v) = units (toLowerCase w) \<longleftrightarrow>
   toLowerCase v = toLowerCase w \<and> units (toLowerCase w) = codePoints (toLowerCase w)"
  by (metis concat_codePoints concat_units)

lemma search_deleteWord:
  "search (snd (deleteWord t w)) v =
     (search t v \<and>
      \<not> (toLowerCase v = toLowerCase w \<and> units (toLowerCase w) = codePoints (toLowerCase w)))"
  by (simp add: search_keys isWordAt_canDeleteKeys units_eq_codePoints)

lemma storedWords_insertWord:
  "storedWords (insertWord t w) = Set.insert (toLowerCase w) (storedWords t)"
  by (auto simp: storedWords_def search_insertWord)

lemma mem_storedWords: "toLowerCase w \<in> storedWords t \<longleftrightarrow> search t w"
  by (auto simp: storedWords_def search_keys)

lemma storedWords_deleteWord:
  "storedWords (snd (deleteWord t w)) =
     (if search (snd (deleteWord t w)) w then storedWords t else storedWords t - {toLowerCase w})"
proof (cases "units (toLowerCase w) = codePoints (toLowerCase w)")
  case True
  then have "\<not> search (snd (deleteWord t w)) w" by (simp add: search_deleteWord)
  moreover have "storedWords (snd (deleteWord t w)) = storedWords t - {toLowerCase w}"
    using True by (auto simp: storedWords_def search_deleteWord)
  ultimately show ?thesis by simp
next
  case False
  then have same: "\<And>v. search (snd (deleteWord t w)) v = search t v"
    by (simp add: search_deleteWord)
  then have eq: "storedWords (snd (deleteWord t w)) = storedWords t"
    by (simp add: storedWords_def)
  show ?thesis
  proof (cases "search t w")
    case True
    with same eq show ?thesis by simp
  next
    case False
    then have "toLowerCase w \<notin> storedWords t" by (simp add: mem_storedWords)
    with same eq False show ?thesis by simp
  qed
qed

lemma ledger_invariant:
  "foldl ledgerStep (t, storedWords t) ops =
     (foldl applyOp t ops, storedWords (foldl applyOp t ops))"
proof (induction ops arbitrary: t)
  case Nil
  then show ?case by simp
next
  case (Cons op ops)
  show ?case
  proof (cases op)
    case (Insert w)
    then show ?thesis
      using Cons.IH[of "insertWord t w"] by (simp add: storedWords_insertWord)
  next
    case (Delete w)
    then show ?thesis
      using Cons.IH[of "snd (deleteWord t w)"] storedWords_deleteWord[of t w]
      by (simp add: Let_def)
  qed
qed

lemma storedWords_newTrie [simp]: "storedWords newTrie = {}"
  by (simp add: storedWords_def search_keys newTrie_def)

lemma ledger_storedWords: "ledger ops = storedWords (execute ops)"
  using ledger_invariant[of newTrie ops] by (simp add: ledger_def execute_def)

lemma canonicalD:
  "canonical node \<Longrightarrow> isWordAt node ks \<Longrightarrow> codePoints (toLowerCase (concat ks)) = ks"
  by (auto simp: canonical_def list_all_iff dest: isWordAt_subset_wordKeys)

lemma canonicalI:
  "distinctKeys node \<Longrightarrow>
   (\<And>ks. isWordAt node ks \<Longrightarrow> codePoints (toLowerCase (concat ks)) = ks) \<Longrightarrow> canonical node"
  by (auto simp: canonical_def list_all_iff dest: wordKeys_subset_isWordAt)

lemma invariant_createNode: "invariant createNode"
proof -
  have "canonical createNode"
    by (rule canonicalI) simp_all
  then show ?thesis by (simp add: invariant_def)
qed

lemma invariant_insertFrom:
  assumes "invariant node"
  shows "invariant (insertFrom node (codePoints (toLowerCase w)))"
proof -
  from assms have d: "distinctKeys node" and g: "noGarbage node" and c: "canonical node"
    by (simp_all add: invariant_def)
  have "canonical (insertFrom node (codePoints (toLowerCase w)))"
  proof (rule canonicalI)
    show "distinctKeys (insertFrom node (codePoints (toLowerCase w)))"
      using d by (rule distinctKeys_insertFrom)
  next
    fix ks assume "isWordAt (insertFrom node (codePoints (toLowerCase w))) ks"
    then have "ks = codePoints (toLowerCase w) \<or> isWordAt node ks"
      by (simp add: isWordAt_insertFrom)
    then show "codePoints (toLowerCase (concat ks)) = ks"
      using c by (auto simp: concat_codePoints dest: canonicalD)
  qed
  with d g show ?thesis
    by (simp add: invariant_def distinctKeys_insertFrom noGarbage_insertFrom)
qed

lemma invariant_canDeleteKeys:
  assumes "invariant node"
  shows "invariant (snd (canDeleteKeys node ks))"
proof -
  from assms have d: "distinctKeys node" and g: "noGarbage node" and c: "canonical node"
    by (simp_all add: invariant_def)
  have "canonical (snd (canDeleteKeys node ks))"
  proof (rule canonicalI)
    show "distinctKeys (snd (canDeleteKeys node ks))"
      using d by (rule distinctKeys_canDeleteKeys)
  next
    fix r assume "isWordAt (snd (canDeleteKeys node ks)) r"
    then have "isWordAt node r" by (simp add: isWordAt_canDeleteKeys)
    with c show "codePoints (toLowerCase (concat r)) = r" by (rule canonicalD)
  qed
  with d g show ?thesis
    by (simp add: invariant_def distinctKeys_canDeleteKeys noGarbage_canDeleteKeys)
qed

lemma invariant_applyOp: "invariant (root t) \<Longrightarrow> invariant (root (applyOp t op))"
  by (cases op) (simp_all add: invariant_insertFrom invariant_canDeleteKeys)

lemma invariant_foldl: "invariant (root t) \<Longrightarrow> invariant (root (foldl applyOp t ops))"
  by (induction ops arbitrary: t) (simp_all add: invariant_applyOp)

lemma invariant_execute: "invariant (root (execute ops))"
  unfolding execute_def by (rule invariant_foldl) (simp add: newTrie_def invariant_createNode)

lemma storedWords_keys:
  assumes "canonical (root t)"
  shows "storedWords t = concat ` {ks. isWordAt (root t) ks}"
proof (intro set_eqI iffI)
  fix s assume "s \<in> storedWords t"
  then obtain w where "s = toLowerCase w" "isWordAt (root t) (codePoints (toLowerCase w))"
    by (auto simp: storedWords_def search_keys)
  then show "s \<in> concat ` {ks. isWordAt (root t) ks}"
    by (metis (mono_tags, lifting) concat_codePoints image_eqI mem_Collect_eq)
next
  fix s assume "s \<in> concat ` {ks. isWordAt (root t) ks}"
  then obtain ks where ks: "s = concat ks" "isWordAt (root t) ks" by auto
  with assms have can: "codePoints (toLowerCase s) = ks" by (auto dest: canonicalD)
  then have "toLowerCase s = s" using ks(1) by (metis concat_codePoints)
  moreover have "search t s" using can ks(2) by (simp add: search_keys)
  ultimately show "s \<in> storedWords t" unfolding storedWords_def by (metis (mono_tags, lifting) mem_Collect_eq)
qed

lemma concat_inj_on_words:
  assumes "canonical node"
  shows "inj_on concat {ks. isWordAt node ks}"
proof (rule inj_onI)
  fix a b assume "a \<in> {ks. isWordAt node ks}" "b \<in> {ks. isWordAt node ks}" "concat a = concat b"
  with assms show "a = b" by (metis canonicalD mem_Collect_eq)
qed

lemma countWords_storedWords:
  assumes "invariant (root t)"
  shows "countWords t = card (storedWords t)"
proof -
  from assms have d: "distinctKeys (root t)" and c: "canonical (root t)"
    by (simp_all add: invariant_def)
  have "card (storedWords t) = card {ks. isWordAt (root t) ks}"
    using c by (simp add: storedWords_keys card_image concat_inj_on_words)
  with d show ?thesis by (simp add: countWords_card)
qed

section \<open>Autocompletion and prefixes\<close>

lemma isWordAt_append:
  "isWordAt node (P @ ks) = (case walk node P of None \<Rightarrow> False | Some n \<Rightarrow> isWordAt n ks)"
  by (induction P arbitrary: node) (auto split: option.splits)

lemma walk_append:
  "walk node (P @ ks) = (case walk node P of None \<Rightarrow> None | Some n \<Rightarrow> walk n ks)"
  by (induction P arbitrary: node) (auto split: option.splits)

lemma distinctKeys_walk: "distinctKeys node \<Longrightarrow> walk node P = Some n \<Longrightarrow> distinctKeys n"
  by (induction P arbitrary: node) (auto split: option.splits dest: distinctKeys_child)

lemma set_dfs:
  "distinctKeys node \<Longrightarrow> set (dfs node cur) = {cur @ concat ks |ks. isWordAt node ks}"
  by (auto simp: dfs_wordKeys set_wordKeys)

lemma canonical_word:
  assumes "canonical node" "isWordAt node K"
  shows "codePoints (concat K) = K \<and> toLowerCase (concat K) = concat K"
proof -
  from assms have can: "codePoints (toLowerCase (concat K)) = K" by (rule canonicalD)
  then have "toLowerCase (concat K) = concat K" by (metis concat_codePoints)
  with can show ?thesis by simp
qed

lemma autocomplete_set:
  assumes inv: "invariant (root t)"
  shows "set (autocomplete t p) =
    {s \<in> storedWords t. prefix (codePoints (toLowerCase p)) (codePoints s)}"
proof -
  define P where "P = codePoints (toLowerCase p)"
  from inv have d: "distinctKeys (root t)" and c: "canonical (root t)"
    by (simp_all add: invariant_def)
  have stored: "storedWords t = concat ` {ks. isWordAt (root t) ks}"
    using c by (rule storedWords_keys)
  have cP: "concat P = toLowerCase p" by (simp add: P_def concat_codePoints)
  have rhs: "{s \<in> storedWords t. prefix P (codePoints s)} =
             {concat (P @ r) |r. isWordAt (root t) (P @ r)}"
  proof (intro set_eqI iffI)
    fix s assume "s \<in> {s \<in> storedWords t. prefix P (codePoints s)}"
    then obtain K where K: "s = concat K" "isWordAt (root t) K" and pre: "prefix P (codePoints s)"
      by (auto simp: stored)
    from canonical_word[OF c K(2)] K(1) have "codePoints s = K" by simp
    with pre obtain r where "K = P @ r" by (auto simp: prefix_def)
    with K show "s \<in> {concat (P @ r) |r. isWordAt (root t) (P @ r)}" by auto
  next
    fix s assume "s \<in> {concat (P @ r) |r. isWordAt (root t) (P @ r)}"
    then obtain r where r: "s = concat (P @ r)" "isWordAt (root t) (P @ r)" by auto
    from canonical_word[OF c r(2)] r(1) have "codePoints s = P @ r" by simp
    moreover from r have "s \<in> storedWords t" unfolding stored by blast
    ultimately show "s \<in> {s \<in> storedWords t. prefix P (codePoints s)}" by simp
  qed
  show ?thesis
  proof (cases "walk (root t) P")
    case None
    then have "autocomplete t p = []" by (simp add: autocomplete_def traverse_def P_def)
    moreover from None have "\<And>r. \<not> isWordAt (root t) (P @ r)" by (simp add: isWordAt_append)
    ultimately show ?thesis using rhs by (simp add: P_def)
  next
    case (Some n)
    then have dn: "distinctKeys n" using d by (rule distinctKeys_walk[rotated])
    from Some have "autocomplete t p = dfs n (toLowerCase p)"
      by (simp add: autocomplete_def traverse_def P_def)
    then have "set (autocomplete t p) = {toLowerCase p @ concat r |r. isWordAt n r}"
      using dn by (simp add: set_dfs)
    also have "\<dots> = {concat (P @ r) |r. isWordAt (root t) (P @ r)}"
      using Some by (simp add: isWordAt_append cP)
    finally show ?thesis using rhs by (simp add: P_def)
  qed
qed

lemma autocomplete_prefix: "s \<in> set (autocomplete t p) \<Longrightarrow> prefix (toLowerCase p) s"
  by (auto simp: autocomplete_def dfs_wordKeys split: option.splits)

lemma storedWords_lower: "s \<in> storedWords t \<Longrightarrow> toLowerCase s = s"
  by (auto simp: storedWords_def)

lemma insertFrom_idem: "insertFrom (insertFrom node ks) ks = insertFrom node ks"
  by (induction ks arbitrary: node) (simp_all add: Let_def update_conv')

lemma insertWord_idem: "insertWord (insertWord t w) w = insertWord t w"
  by (simp add: insertWord_def insertFrom_idem)

lemma walk_prefix: "prefix P K \<Longrightarrow> walk node K \<noteq> None \<Longrightarrow> walk node P \<noteq> None"
  by (auto simp: prefix_def walk_append split: option.splits)

lemma search_foldl_insertWord: "search t w \<Longrightarrow> search (foldl insertWord t ws) w"
  by (induction ws arbitrary: t) (simp_all add: search_insertWord)

lemma traverse_lower: "traverse t (toLowerCase w) = traverse t w"
  by (simp add: traverse_def)

section \<open>Equations for evaluating the traversals on a given trie\<close>

lemma dfs_code [code]:
  "dfs (TrieNode [] e) cur = (if e then [cur] else [])"
  "dfs (TrieNode ((k, c) # cs) e) cur =
     (if e then [cur] else []) @ dfs c (cur @ k) @ dfs (TrieNode cs False) cur"
  by (simp_all add: dfs.simps[of "TrieNode [] e"] dfs.simps[of "TrieNode ((k, c) # cs) e"]
      dfs.simps[of "TrieNode cs False"])

declare dfs.simps [code del]

lemma noGarbage_code [code]:
  "noGarbage (TrieNode [] e) = True"
  "noGarbage (TrieNode ((k, c) # cs) e) = (live c \<and> noGarbage c \<and> noGarbage (TrieNode cs e))"
  by (simp_all add: noGarbage.simps[of "TrieNode [] e"] noGarbage.simps[of "TrieNode ((k, c) # cs) e"]
      noGarbage.simps[of "TrieNode cs e"])

declare noGarbage.simps [code del]

section \<open>Deletion: further lemmas\<close>

lemma canDeleteKeys_emptied:
  "isWordAt node ks \<Longrightarrow> snd (canDeleteKeys node ks) = createNode \<Longrightarrow>
   fst (canDeleteKeys node ks)"
  by (cases ks) (auto simp: createNode_def split: option.splits if_splits)

lemma stored_units_path:
  assumes "canonical (root t)" "isWordAt (root t) (units (toLowerCase w))"
  shows "search t w"
proof -
  from assms have "codePoints (toLowerCase (concat (units (toLowerCase w)))) = units (toLowerCase w)"
    by (rule canonicalD)
  then have "codePoints (toLowerCase w) = units (toLowerCase w)" by simp
  with assms(2) show ?thesis by (simp add: search_keys)
qed

section \<open>The claims\<close>

text \<open>
  C1. The claim: \<open>delete(w)\<close> returns true if and only if \<open>w\<close> was present and is now
  removed, and returns false without changing the trie when \<open>w\<close> was absent. The code
  returns the flag of the top-level \<open>canDelete\<close> call, which says whether the root has
  become prunable, not whether the word was removed. With \<open>band\<close> and \<open>bandwidth\<close> stored,
  \<open>delete("band")\<close> removes \<open>band\<close> (it was found before and is not found afterwards) and
  returns false.
\<close>

theorem delete_result_false_although_removed:
  "search (execute [Insert (js ''band''), Insert (js ''bandwidth'')]) (js ''band'') \<and>
   fst (deleteWord (execute [Insert (js ''band''), Insert (js ''bandwidth'')]) (js ''band'')) = False \<and>
   search (snd (deleteWord (execute [Insert (js ''band''), Insert (js ''bandwidth'')]) (js ''band'')))
     (js ''band'') = False"
  by code_simp

text \<open>
  C2. The claim: after \<open>insert(w)\<close> and \<open>delete(w)\<close>, \<open>search(w)\<close> is false, and deleting one
  word leaves the others intact. \<open>insert\<close> keys the trie by code points, \<open>delete\<close> looks up
  single code units, so a word with a character outside the Basic Multilingual Plane is
  never removed: for the one-character word U+1F600 (code units D83D DE00) inserted into
  an empty trie, \<open>delete\<close> returns false, leaves the trie as it is, and \<open>search\<close> still
  finds the word.
\<close>

theorem delete_leaves_astral_word:
  "search (insertWord newTrie [0xD83D, 0xDE00]) [0xD83D, 0xDE00] \<and>
   deleteWord (insertWord newTrie [0xD83D, 0xDE00]) [0xD83D, 0xDE00] =
     (False, insertWord newTrie [0xD83D, 0xDE00]) \<and>
   search (snd (deleteWord (insertWord newTrie [0xD83D, 0xDE00]) [0xD83D, 0xDE00]))
     [0xD83D, 0xDE00]"
  by code_simp

text \<open>
  C3. Every operation preserves the garbage-free invariant, and the root is never removed:
  the empty trie is garbage-free; \<open>insert\<close> and \<open>delete\<close> take a garbage-free trie to a
  garbage-free trie (the other operations do not change the trie); when the top-level call
  of \<open>delete\<close> reports the root prunable, the trie still has its root, an empty node, and
  is the empty trie; hence every state reached by a sequence of calls is garbage-free.
\<close>

theorem garbage_free_preserved:
  "garbageFree newTrie \<and>
   (garbageFree t \<longrightarrow> garbageFree (insertWord t w) \<and> garbageFree (snd (deleteWord t w))) \<and>
   (fst (deleteWord t w) \<longrightarrow> snd (deleteWord t w) = newTrie) \<and>
   garbageFree (execute ops)"
proof -
  have "garbageFree newTrie" by (simp add: garbageFree_def newTrie_def)
  moreover have "garbageFree t \<longrightarrow> garbageFree (insertWord t w) \<and> garbageFree (snd (deleteWord t w))"
    by (simp add: garbageFree_def noGarbage_insertFrom noGarbage_canDeleteKeys)
  moreover have "fst (deleteWord t w) \<longrightarrow> snd (deleteWord t w) = newTrie"
    by (simp add: deleteWord_keys newTrie_def canDeleteKeys_flag)
  moreover have "garbageFree (execute ops)"
    using invariant_execute[of ops] by (simp add: garbageFree_def invariant_def)
  ultimately show ?thesis by simp
qed

theorem garbage_free_preserved_witness:
  "garbageFree (insertWord newTrie (js ''a'')) \<and>
   garbageFree (insertWord (insertWord newTrie (js ''a'')) (js ''a'')) \<and>
   garbageFree (snd (deleteWord (insertWord newTrie (js ''a'')) (js ''a''))) \<and>
   fst (deleteWord (insertWord newTrie (js ''a'')) (js ''a'')) \<and>
   snd (deleteWord (insertWord newTrie (js ''a'')) (js ''a'')) = newTrie"
proof -
  have g: "garbageFree (insertWord newTrie (js ''a''))" by code_simp
  have f: "fst (deleteWord (insertWord newTrie (js ''a'')) (js ''a''))" by code_simp
  from garbage_free_preserved[where t = "insertWord newTrie (js ''a'')" and w = "js ''a''"] g f
  show ?thesis by blast
qed

text \<open>
  C4. After any sequence of inserts and deletes, \<open>countWords()\<close> is the number of distinct
  normalized words inserted and not since removed by a delete (the ledger), which is the
  set of words currently stored.
\<close>

theorem countWords_counts_ledger:
  "countWords (execute ops) = card (ledger ops) \<and> ledger ops = storedWords (execute ops)"
  by (simp add: ledger_storedWords countWords_storedWords invariant_execute)

theorem countWords_counts_ledger_witness:
  "countWords (execute [Insert (js ''band''), Insert (js ''Bandwidth''), Insert (js ''BAND''),
                        Delete (js ''band'')]) = 1 \<and>
   card (ledger [Insert (js ''band''), Insert (js ''Bandwidth''), Insert (js ''BAND''),
                 Delete (js ''band'')]) = 1"
proof -
  have "countWords (execute [Insert (js ''band''), Insert (js ''Bandwidth''), Insert (js ''BAND''),
                        Delete (js ''band'')]) = 1" by code_simp
  with countWords_counts_ledger[of "[Insert (js ''band''), Insert (js ''Bandwidth''),
      Insert (js ''BAND''), Delete (js ''band'')]"]
  show ?thesis by simp
qed

text \<open>
  C5, as stated: when the traversal for the prefix succeeds, \<open>autocomplete(p)\<close> returns
  exactly the stored words that begin with the normalized prefix. This fails where the
  prefix ends inside a surrogate pair of a stored word: with the words D83D and D83D DE00
  stored, the traversal for the prefix D83D succeeds, the stored word D83D DE00 begins with
  it, and \<open>autocomplete\<close> does not return that word.
\<close>

theorem autocomplete_misses_split_pair:
  "traverse (execute [Insert [0xD83D], Insert [0xD83D, 0xDE00]]) [0xD83D] \<noteq> None \<and>
   search (execute [Insert [0xD83D], Insert [0xD83D, 0xDE00]]) [0xD83D, 0xDE00] \<and>
   toLowerCase [0xD83D, 0xDE00] = [0xD83D, 0xDE00] \<and>
   prefix (toLowerCase [0xD83D]) [0xD83D, 0xDE00] \<and>
   [0xD83D, 0xDE00] \<notin> set (autocomplete (execute [Insert [0xD83D], Insert [0xD83D, 0xDE00]]) [0xD83D])"
  by code_simp

text \<open>
  C5, amended: in every state reached by a sequence of calls, \<open>autocomplete(p)\<close> is empty
  when the traversal for the normalized prefix fails; as a set it is exactly the stored
  words whose code-point sequence begins with the code-point sequence of the normalized
  prefix; and every returned string is lowercase and starts with the normalized prefix.
\<close>

theorem autocomplete_code_point_prefix:
  "(traverse (execute ops) p = None \<longrightarrow> autocomplete (execute ops) p = []) \<and>
   set (autocomplete (execute ops) p) =
     {s \<in> storedWords (execute ops). prefix (codePoints (toLowerCase p)) (codePoints s)} \<and>
   (\<forall>s \<in> set (autocomplete (execute ops) p). toLowerCase s = s \<and> prefix (toLowerCase p) s)"
proof -
  have set_eq: "set (autocomplete (execute ops) p) =
     {s \<in> storedWords (execute ops). prefix (codePoints (toLowerCase p)) (codePoints s)}"
    using invariant_execute by (rule autocomplete_set)
  have "traverse (execute ops) p = None \<longrightarrow> autocomplete (execute ops) p = []"
    by (simp add: autocomplete_def)
  moreover have "\<forall>s \<in> set (autocomplete (execute ops) p). toLowerCase s = s \<and> prefix (toLowerCase p) s"
  proof
    fix s assume s: "s \<in> set (autocomplete (execute ops) p)"
    then have "s \<in> storedWords (execute ops)" unfolding set_eq by simp
    then have "toLowerCase s = s" by (rule storedWords_lower)
    moreover from s have "prefix (toLowerCase p) s" by (rule autocomplete_prefix)
    ultimately show "toLowerCase s = s \<and> prefix (toLowerCase p) s" by simp
  qed
  ultimately show ?thesis using set_eq by simp
qed

theorem autocomplete_code_point_prefix_witness:
  "autocomplete (execute [Insert (js ''Band''), Insert (js ''bandwidth''), Insert (js ''java'')])
     (js ''BAN'') = [js ''band'', js ''bandwidth''] \<and>
   {s \<in> storedWords (execute [Insert (js ''Band''), Insert (js ''bandwidth''), Insert (js ''java'')]).
      prefix (codePoints (toLowerCase (js ''BAN''))) (codePoints s)} = set [js ''band'', js ''bandwidth''] \<and>
   traverse (execute [Insert (js ''Band''), Insert (js ''bandwidth''), Insert (js ''java'')])
     (js ''x'') = None \<and>
   autocomplete (execute [Insert (js ''Band''), Insert (js ''bandwidth''), Insert (js ''java'')])
     (js ''x'') = []"
proof -
  let ?ops = "[Insert (js ''Band''), Insert (js ''bandwidth''), Insert (js ''java'')]"
  have a: "autocomplete (execute ?ops) (js ''BAN'') = [js ''band'', js ''bandwidth'']"
    by code_simp
  have n: "traverse (execute ?ops) (js ''x'') = None" by code_simp
  have e: "set (autocomplete (execute ?ops) (js ''BAN'')) =
     {s \<in> storedWords (execute ?ops).
        prefix (codePoints (toLowerCase (js ''BAN''))) (codePoints s)}"
    using autocomplete_code_point_prefix[of ?ops "js ''BAN''"] by (rule conjunct1[OF conjunct2])
  have x: "autocomplete (execute ?ops) (js ''x'') = []"
    using autocomplete_code_point_prefix[of ?ops "js ''x''"] n by blast
  from e[symmetric] a have s: "{s \<in> storedWords (execute ?ops).
        prefix (codePoints (toLowerCase (js ''BAN''))) (codePoints s)} = set [js ''band'', js ''bandwidth'']"
    by (simp only:)
  from a s n x show ?thesis by (intro conjI)
qed

text \<open>
  C6. In every trie, after \<open>insert(w)\<close>, \<open>search(w)\<close> is true, and it stays true after
  inserting another word, and after inserting any further list of words.
\<close>

theorem insert_then_search:
  "search (insertWord t w) w \<and>
   search (insertWord (insertWord t w) w2) w \<and>
   search (foldl insertWord (insertWord t w) ws) w"
  by (simp add: search_insertWord search_foldl_insertWord)

theorem insert_then_search_witness:
  "search (insertWord newTrie (js ''Apple'')) (js ''Apple'') \<and>
   search (insertWord (insertWord newTrie (js ''Apple'')) (js ''band'')) (js ''Apple'')"
  using insert_then_search[where t = newTrie and w = "js ''Apple''" and ?w2.0 = "js ''band''"]
  by blast

text \<open>
  C7. Insert is idempotent: in every trie, inserting \<open>w\<close> twice gives the same trie as
  inserting it once, so \<open>search\<close>, \<open>autocomplete\<close> and \<open>countWords\<close> give the same results.
\<close>

theorem insert_idempotent:
  "search (insertWord (insertWord t w) w) v = search (insertWord t w) v \<and>
   autocomplete (insertWord (insertWord t w) w) p = autocomplete (insertWord t w) p \<and>
   countWords (insertWord (insertWord t w) w) = countWords (insertWord t w) \<and>
   insertWord (insertWord t w) w = insertWord t w"
  by (simp add: insertWord_idem)

theorem insert_idempotent_witness:
  "countWords (insertWord (insertWord newTrie (js ''Apple'')) (js ''Apple'')) = 1 \<and>
   insertWord (insertWord newTrie (js ''Apple'')) (js ''Apple'') = insertWord newTrie (js ''Apple'')"
proof -
  have "countWords (insertWord newTrie (js ''Apple'')) = 1" by code_simp
  with insert_idempotent[where t = newTrie and w = "js ''Apple''"] show ?thesis by (simp only:)
qed

text \<open>
  C8. The operations are case-insensitive: \<open>search\<close>, \<open>startsWith\<close>, \<open>insert\<close>, \<open>delete\<close>
  and \<open>autocomplete\<close> applied to \<open>w\<close> do what they do applied to the lowercase form of \<open>w\<close>;
  after \<open>insert("Apple")\<close>, \<open>search("apple")\<close> and \<open>search("APPLE")\<close> are true.
\<close>

theorem case_insensitive:
  "search t (toLowerCase w) = search t w \<and>
   startsWith t (toLowerCase w) = startsWith t w \<and>
   insertWord t (toLowerCase w) = insertWord t w \<and>
   deleteWord t (toLowerCase w) = deleteWord t w \<and>
   autocomplete t (toLowerCase w) = autocomplete t w \<and>
   search (insertWord t (js ''Apple'')) (js ''apple'') \<and>
   search (insertWord t (js ''Apple'')) (js ''APPLE'')"
proof -
  have "search t (toLowerCase w) = search t w"
    by (simp add: search_def traverse_lower)
  moreover have "startsWith t (toLowerCase w) = startsWith t w"
    by (simp add: startsWith_def traverse_lower)
  moreover have "insertWord t (toLowerCase w) = insertWord t w"
    by (simp add: insertWord_def)
  moreover have "deleteWord t (toLowerCase w) = deleteWord t w"
    by (simp add: deleteWord_def)
  moreover have "autocomplete t (toLowerCase w) = autocomplete t w"
    by (simp add: autocomplete_def traverse_lower split: option.splits)
  moreover have "toLowerCase (js ''apple'') = toLowerCase (js ''Apple'')" by code_simp
  then have "search (insertWord t (js ''Apple'')) (js ''apple'')"
    by (simp add: search_insertWord)
  moreover have "toLowerCase (js ''APPLE'') = toLowerCase (js ''Apple'')" by code_simp
  then have "search (insertWord t (js ''Apple'')) (js ''APPLE'')"
    by (simp add: search_insertWord)
  ultimately show ?thesis by simp
qed

theorem case_insensitive_witness:
  "search (insertWord newTrie (js ''Apple'')) (js ''apple'') \<and>
   search (insertWord newTrie (js ''Apple'')) (js ''APPLE'') \<and>
   insertWord newTrie (toLowerCase (js ''Apple'')) = insertWord newTrie (js ''Apple'')"
  using case_insensitive[where t = newTrie and w = "js ''Apple''"] by blast

text \<open>
  C9, as stated: if \<open>search(w)\<close> is true then \<open>startsWith(p)\<close> is true for every prefix \<open>p\<close>
  of \<open>w\<close>. A string is a sequence of code units, and a prefix may end inside a surrogate
  pair: with the word D83D DE00 stored, \<open>search\<close> finds it, D83D is a prefix of it, and
  \<open>startsWith\<close> of D83D is false.
\<close>

theorem startsWith_rejects_half_pair:
  "search (insertWord newTrie [0xD83D, 0xDE00]) [0xD83D, 0xDE00] \<and>
   prefix [0xD83D] [0xD83D, 0xDE00 :: 16 word] \<and>
   \<not> startsWith (insertWord newTrie [0xD83D, 0xDE00]) [0xD83D]"
  by code_simp

text \<open>
  C9, amended: in every trie, if \<open>search(w)\<close> is true then \<open>startsWith(p)\<close> is true for
  every \<open>p\<close> whose normalized code-point sequence is a prefix of the normalized code-point
  sequence of \<open>w\<close>, \<open>p = w\<close> included.
\<close>

theorem prefix_monotone:
  "search t w \<Longrightarrow> prefix (codePoints (toLowerCase p)) (codePoints (toLowerCase w)) \<Longrightarrow>
   startsWith t p"
  unfolding search_def startsWith_def traverse_def
  by (rule walk_prefix) (auto split: option.splits)

theorem prefix_monotone_witness:
  "search (insertWord newTrie (js ''Band'')) (js ''band'') \<and>
   prefix (codePoints (toLowerCase (js ''BA''))) (codePoints (toLowerCase (js ''band''))) \<and>
   startsWith (insertWord newTrie (js ''Band'')) (js ''BA'')"
proof -
  have s: "search (insertWord newTrie (js ''Band'')) (js ''band'')" by code_simp
  have p: "prefix (codePoints (toLowerCase (js ''BA''))) (codePoints (toLowerCase (js ''band'')))"
    by code_simp
  from prefix_monotone[OF s p] s p show ?thesis by (intro conjI)
qed

text \<open>
  C10. \<open>startsWith("")\<close> is true in every trie, the freshly constructed one included, and
  in every state reached by a sequence of calls \<open>autocomplete("")\<close> enumerates exactly the
  stored words.
\<close>

theorem empty_prefix:
  "startsWith t [] \<and> startsWith newTrie [] \<and>
   set (autocomplete (execute ops) []) = storedWords (execute ops)"
proof -
  have "startsWith t []" for t
    by (simp add: startsWith_def traverse_def toLowerCase_def)
  moreover have "set (autocomplete (execute ops) []) = storedWords (execute ops)"
    using autocomplete_set[OF invariant_execute, of ops "[]"] by (simp add: toLowerCase_def)
  ultimately show ?thesis by simp
qed

theorem empty_prefix_witness:
  "startsWith newTrie [] \<and>
   autocomplete (execute [Insert (js ''Band''), Insert (js ''java'')]) [] = [js ''band'', js ''java''] \<and>
   storedWords (execute [Insert (js ''Band''), Insert (js ''java'')]) = set [js ''band'', js ''java'']"
proof -
  let ?ops = "[Insert (js ''Band''), Insert (js ''java'')]"
  have a: "autocomplete (execute ?ops) [] = [js ''band'', js ''java'']" by code_simp
  have e: "set (autocomplete (execute ?ops) []) = storedWords (execute ?ops)"
    using empty_prefix[of newTrie ?ops] by blast
  have s: "startsWith newTrie []" using empty_prefix[of newTrie ?ops] by blast
  from e[symmetric] a have "storedWords (execute ?ops) = set [js ''band'', js ''java'']"
    by (simp only:)
  with s a show ?thesis by (intro conjI)
qed

section \<open>Further properties of deletion\<close>

text \<open>
  Deleting a word that \<open>search\<close> does not find returns false and leaves the trie as it is,
  in every state reached by a sequence of calls.
\<close>

theorem delete_absent_unchanged:
  "\<not> search (execute ops) w \<Longrightarrow> deleteWord (execute ops) w = (False, execute ops)"
proof -
  assume ns: "\<not> search (execute ops) w"
  have "canonical (root (execute ops))"
    using invariant_execute[of ops] by (simp add: invariant_def)
  with ns have "\<not> isWordAt (root (execute ops)) (units (toLowerCase w))"
    by (auto dest: stored_units_path)
  then show ?thesis by (simp add: deleteWord_keys canDeleteKeys_absent)
qed

theorem delete_absent_unchanged_witness:
  "\<not> search (execute [Insert (js ''band'')]) (js ''ban'') \<and>
   deleteWord (execute [Insert (js ''band'')]) (js ''ban'') = (False, execute [Insert (js ''band'')])"
proof -
  have n: "\<not> search (execute [Insert (js ''band'')]) (js ''ban'')" by code_simp
  from delete_absent_unchanged[OF n] n show ?thesis by (intro conjI)
qed

text \<open>
  In every trie, deleting \<open>w\<close> does not change what \<open>search\<close> says of a word whose
  normalized form differs from that of \<open>w\<close>; with \<open>band\<close> and \<open>bandwidth\<close> stored, after
  \<open>delete("band")\<close> the word \<open>bandwidth\<close> is found and \<open>autocomplete("band")\<close> is
  \<open>["bandwidth"]\<close>.
\<close>

theorem delete_keeps_other_words:
  "toLowerCase v \<noteq> toLowerCase w \<Longrightarrow> search (snd (deleteWord t w)) v = search t v"
  by (simp add: search_deleteWord)

theorem delete_keeps_other_words_witness:
  "toLowerCase (js ''bandwidth'') \<noteq> toLowerCase (js ''band'') \<and>
   search (snd (deleteWord (execute [Insert (js ''band''), Insert (js ''bandwidth'')]) (js ''band'')))
     (js ''bandwidth'') \<and>
   autocomplete (snd (deleteWord (execute [Insert (js ''band''), Insert (js ''bandwidth'')]) (js ''band'')))
     (js ''band'') = [js ''bandwidth'']"
proof -
  have d: "toLowerCase (js ''bandwidth'') \<noteq> toLowerCase (js ''band'')" by code_simp
  have s: "search (execute [Insert (js ''band''), Insert (js ''bandwidth'')]) (js ''bandwidth'')"
    by code_simp
  have a: "autocomplete (snd (deleteWord (execute [Insert (js ''band''), Insert (js ''bandwidth'')]) (js ''band'')))
     (js ''band'') = [js ''bandwidth'']" by code_simp
  from delete_keeps_other_words[OF d, of "execute [Insert (js ''band''), Insert (js ''bandwidth'')]"] s
  have "search (snd (deleteWord (execute [Insert (js ''band''), Insert (js ''bandwidth'')]) (js ''band'')))
     (js ''bandwidth'')" by (simp only:)
  with d a show ?thesis by (intro conjI)
qed

text \<open>
  In every trie, a word whose normalized form has no surrogate pair (its code points are
  its code units) is not found after it has been deleted.
\<close>

theorem delete_removes_bmp_word:
  "codePoints (toLowerCase w) = units (toLowerCase w) \<Longrightarrow> \<not> search (snd (deleteWord t w)) w"
  by (simp add: search_deleteWord)

theorem delete_removes_bmp_word_witness:
  "codePoints (toLowerCase (js ''Band'')) = units (toLowerCase (js ''Band'')) \<and>
   search (insertWord newTrie (js ''Band'')) (js ''Band'') \<and>
   \<not> search (snd (deleteWord (insertWord newTrie (js ''Band'')) (js ''Band''))) (js ''Band'')"
proof -
  have b: "codePoints (toLowerCase (js ''Band'')) = units (toLowerCase (js ''Band''))" by code_simp
  have s: "search (insertWord newTrie (js ''Band'')) (js ''Band'')" by code_simp
  from delete_removes_bmp_word[OF b] b s show ?thesis by (intro conjI)
qed

text \<open>
  What \<open>delete\<close> returns: in every state reached by a sequence of calls, the result is true
  exactly when the word was stored and the trie is empty afterwards.
\<close>

theorem delete_result_means_emptied:
  "fst (deleteWord (execute ops) w) \<longleftrightarrow>
     search (execute ops) w \<and> snd (deleteWord (execute ops) w) = newTrie"
proof -
  let ?t = "execute ops"
  let ?U = "units (toLowerCase w)"
  have can: "canonical (root ?t)"
    using invariant_execute[of ops] by (simp add: invariant_def)
  show ?thesis
  proof (cases "isWordAt (root ?t) ?U")
    case True
    with can have s: "search ?t w" by (rule stored_units_path)
    have "fst (canDeleteKeys (root ?t) ?U) \<longleftrightarrow> snd (canDeleteKeys (root ?t) ?U) = createNode"
      using True canDeleteKeys_emptied canDeleteKeys_flag by blast
    with s show ?thesis by (simp add: deleteWord_keys newTrie_def)
  next
    case False
    then have un: "deleteWord ?t w = (False, ?t)" by (simp add: deleteWord_keys canDeleteKeys_absent)
    have "\<not> search newTrie w" by (simp add: search_keys newTrie_def)
    with un show ?thesis by auto
  qed
qed

theorem delete_result_means_emptied_witness:
  "fst (deleteWord (execute [Insert (js ''a'')]) (js ''a'')) \<and>
   snd (deleteWord (execute [Insert (js ''a'')]) (js ''a'')) = newTrie \<and>
   search (execute [Insert (js ''a''), Insert (js ''b'')]) (js ''a'') \<and>
   \<not> fst (deleteWord (execute [Insert (js ''a''), Insert (js ''b'')]) (js ''a''))"
proof -
  have f: "fst (deleteWord (execute [Insert (js ''a'')]) (js ''a''))" by code_simp
  have g: "\<not> fst (deleteWord (execute [Insert (js ''a''), Insert (js ''b'')]) (js ''a''))" by code_simp
  have s: "search (execute [Insert (js ''a''), Insert (js ''b'')]) (js ''a'')" by code_simp
  from delete_result_means_emptied[of "[Insert (js ''a'')]" "js ''a''"] f
  have "snd (deleteWord (execute [Insert (js ''a'')]) (js ''a'')) = newTrie" by blast
  with f s g show ?thesis by (intro conjI)
qed

text \<open>
  The demonstration at the end of the source file: the ten words, the queries it prints,
  and the deletion of \<open>band\<close>.
\<close>

theorem demonstration:
  "countWords dictionary = 10 \<and>
   search dictionary (js ''apple'') \<and>
   \<not> search dictionary (js ''app'') \<and>
   startsWith dictionary (js ''app'') \<and>
   autocomplete dictionary (js ''ban'') = [js ''banana'', js ''band'', js ''bandwidth''] \<and>
   autocomplete dictionary (js ''type'') = [js ''type'', js ''typescript''] \<and>
   fst (deleteWord dictionary (js ''band'')) = False \<and>
   \<not> search (snd (deleteWord dictionary (js ''band''))) (js ''band'') \<and>
   search (snd (deleteWord dictionary (js ''band''))) (js ''bandwidth'') \<and>
   autocomplete (snd (deleteWord dictionary (js ''band''))) (js ''ban'') =
     [js ''banana'', js ''bandwidth''] \<and>
   countWords (snd (deleteWord dictionary (js ''band''))) = 9"
  by code_simp

end
